theory Spec2Isabelle
  imports Main "HOL-Library.Sublist" "HOL-Library.Multiset"
begin

section \<open>Errors of the Go runtime and library\<close>

text \<open>
  The programs compare errors with \<open>==\<close>, which on Go interface values is identity of
  the dynamic value. \<open>os.ErrNotExist\<close>, \<open>os.ErrInvalid\<close> and \<open>filepath.SkipDir\<close> are
  package-level sentinel values; the errors that system calls produce (\<open>os.Lstat\<close>,
  \<open>os.Open\<close>, reading a directory) are \<open>*os.PathError\<close> values that wrap an errno.
  A \<open>PathError\<close> that wraps \<open>ENOENT\<close> is therefore a different value from the
  sentinel \<open>ErrNotExist\<close>, exactly as the datatype has it.
\<close>

datatype errno = ENOENT | EACCES | EIO | EMFILE

datatype go_error =
    ErrNotExist
  | ErrInvalid
  | SkipDir
  | PathError string string errno

text \<open>\<open>log.Fatal\<close> prints its argument and exits the process with status 1.\<close>

datatype fatal = FatalErr go_error | FatalMsg string

section \<open>The two-tree program (walk3)\<close>

type_synonym oneFileResult = "(string \<times> string) list"
type_synonym fileList = "string list"
type_synonym multiFileResult = "(string \<times> fileList) list"

text \<open>
  Both results are Go maps: \<open>oneFileResult\<close> from path to hash,
  \<open>multiFileResult\<close> from hash to file list. They are kept as association lists
  with distinct keys, because \<open>main\<close> ranges over both; \<open>map_of\<close> is the lookup
  \<open>m[key]\<close>.
\<close>

definition removeWithPrefix :: "string list \<Rightarrow> string \<Rightarrow> string list" where
  "removeWithPrefix paths path = filter (\<lambda>v. \<not> prefix path v) paths"

record config =
  searchDir1 :: string
  searchDir2 :: string
  useOneDir :: bool

text \<open>
  The start of \<open>main\<close>: the directories are taken from the positional arguments, and
  equal directories are accepted only with \<open>-d\<close>.
\<close>

definition chooseDirs :: "string list \<Rightarrow> bool \<Rightarrow> fatal + (string \<times> string)" where
  "chooseDirs args dupFlag =
     (if length args > 1 then Inr (args ! 0, args ! 1)
      else if length args > 0 then Inr (''.'', args ! 0)
      else if \<not> dupFlag then
        Inl (FatalMsg ''no directories specified\<newline>usage: walk [-d] [-q] [-i dir3] [dir1 | dir1 dir2]'')
      else Inr (''.'', ''.''))"

definition configure :: "string list \<Rightarrow> bool \<Rightarrow> fatal + config" where
  "configure args dupFlag =
     (case chooseDirs args dupFlag of
        Inl f \<Rightarrow> Inl f
      | Inr (d1, d2) \<Rightarrow>
          if d1 = d2 then
            (if dupFlag then Inr \<lparr>searchDir1 = d1, searchDir2 = d2, useOneDir = True\<rparr>
             else Inl (FatalMsg ''same directory specified twice''))
          else Inr \<lparr>searchDir1 = d1, searchDir2 = d2, useOneDir = False\<rparr>)"

text \<open>
  What the report prints, one value per group of \<open>fmt.Println\<close> calls, with the
  values as they are before the short id is cut from the hash and before quoting:
  a file of the first tree with the files of the second tree that have its hash,
  a file of the first tree that is missing from the second, or a group of
  duplicates inside one tree.
\<close>

datatype report_entry =
    Match string string fileList
  | Missing string string
  | Group string fileList

text \<open>The loop \<open>for v, _ := range ignoreDirs { files = removeWithPrefix(files, v) }\<close>.\<close>

definition stripIgnored :: "string list \<Rightarrow> fileList \<Rightarrow> fileList" where
  "stripIgnored ignoreDirs files = fold (\<lambda>v fs. removeWithPrefix fs v) ignoreDirs files"

text \<open>
  The body of the loop over the sorted file names of the first tree. A missing key
  of a Go map reads as the zero value, the empty string or the nil slice.
\<close>

definition reportFile ::
  "bool \<Rightarrow> string list \<Rightarrow> oneFileResult \<Rightarrow> multiFileResult \<Rightarrow> string \<Rightarrow> report_entry list" where
  "reportFile dupFlag ignoreDirs dir1Hashes dir2Hashes file =
     (let useIgnore = length ignoreDirs > 0;
          hash = (case map_of dir1Hashes file of None \<Rightarrow> [] | Some h \<Rightarrow> h)
      in case map_of dir2Hashes hash of
           Some files \<Rightarrow>
             if dupFlag then
               (let files' = (if useIgnore then stripIgnored ignoreDirs files else files)
                in if useIgnore \<and> length files' = 0 then [] else [Match file hash files'])
             else []
         | None \<Rightarrow>
             if \<not> dupFlag then
               (let files' = (if useIgnore then stripIgnored ignoreDirs [] else [])
                in if useIgnore \<and> length files' \<noteq> 0 then [] else [Missing hash file])
             else [])"

text \<open>
  The report of \<open>main\<close>. \<open>keys\<close> is the slice of the first tree's file names after
  \<open>sortfold.Strings\<close>, a library outside this repository that only fixes the order.
\<close>

definition report ::
  "bool \<Rightarrow> bool \<Rightarrow> string list \<Rightarrow> string list \<Rightarrow> oneFileResult \<Rightarrow> multiFileResult
     \<Rightarrow> report_entry list" where
  "report oneDir dupFlag ignoreDirs keys dir1Hashes dir2Hashes =
     (if oneDir then
        concat (map (\<lambda>(hash, files). if length files > 1 then [Group hash files] else [])
                  dir2Hashes)
      else concat (map (reportFile dupFlag ignoreDirs dir1Hashes dir2Hashes) keys))"

text \<open>
  \<open>main\<close> as a whole. The two traversals \<open>searchTree1\<close> and \<open>searchTree2\<close> are
  parameters: each may end the process with \<open>log.Fatal\<close>, or gives its index. They
  run in two goroutines and \<open>main\<close> waits for both, so the process reports only
  when neither has ended it.
\<close>

definition walk3_main ::
  "(string \<Rightarrow> string \<Rightarrow> fatal + oneFileResult) \<Rightarrow> (string \<Rightarrow> string \<Rightarrow> fatal + multiFileResult)
     \<Rightarrow> (string list \<Rightarrow> string list) \<Rightarrow> string list \<Rightarrow> string list \<Rightarrow> bool
     \<Rightarrow> fatal + report_entry list" where
  "walk3_main searchTree1 searchTree2 sortfold ignoreDirs args dupFlag =
     (case configure args dupFlag of
        Inl f \<Rightarrow> Inl f
      | Inr c \<Rightarrow>
          (case searchTree1 (searchDir1 c) (searchDir2 c) of
             Inl f \<Rightarrow> Inl f
           | Inr dir1Hashes \<Rightarrow>
               (case searchTree2 (searchDir1 c) (searchDir2 c) of
                  Inl f \<Rightarrow> Inl f
                | Inr dir2Hashes \<Rightarrow>
                    Inr (report (useOneDir c) dupFlag ignoreDirs
                           (sortfold (map fst dir1Hashes)) dir1Hashes dir2Hashes))))"

section \<open>Hashing one file (walk4a)\<close>

type_synonym bytes = string

text \<open>A pair is the struct \<open>pair{hash, path}\<close>, in this order.\<close>

type_synonym pair = "string \<times> string"

text \<open>
  What opening and reading a regular file gives: \<open>os.Open\<close> fails, or the file opens
  and reading it fails, or it is read to the end.
\<close>

datatype contents = OpenFails go_error | ReadFails go_error | Bytes bytes

text \<open>\<open>os.Open\<close> returns a nil \<open>*os.File\<close> together with its error.\<close>

fun os_Open :: "contents \<Rightarrow> contents option \<times> go_error option" where
  "os_Open (OpenFails e) = (None, Some e)"
| "os_Open c = (Some c, None)"

text \<open>
  \<open>io.Copy(h, f)\<close> into the digest: every method of a nil \<open>*os.File\<close> returns
  \<open>os.ErrInvalid\<close>, so the copy from a file that was not opened fails with it.
\<close>

fun io_Copy :: "contents option \<Rightarrow> go_error + bytes" where
  "io_Copy None = Inl ErrInvalid"
| "io_Copy (Some (OpenFails e)) = Inl ErrInvalid"
| "io_Copy (Some (ReadFails e)) = Inl e"
| "io_Copy (Some (Bytes bs)) = Inr bs"

text \<open>
  \<open>hashFile\<close>; \<open>md5hex\<close> stands for \<open>fmt.Sprintf("%x", h.Sum(nil))\<close> of the MD5
  digest of the bytes read, and \<open>c\<close> for what the file system has at \<open>path\<close>.
\<close>

definition hashFile :: "(bytes \<Rightarrow> string) \<Rightarrow> string \<Rightarrow> contents \<Rightarrow> fatal + pair" where
  "hashFile md5hex path c =
     (case os_Open c of
        (f, err) \<Rightarrow>
          (case (if err \<noteq> None \<and> err \<noteq> Some ErrNotExist then err else None) of
             Some e \<Rightarrow> Inl (FatalErr e)
           | None \<Rightarrow>
               (case io_Copy f of
                  Inl e \<Rightarrow> Inl (FatalErr e)
                | Inr bs \<Rightarrow> Inr (md5hex bs, path))))"

section \<open>The file system and the library functions of path/filepath\<close>

text \<open>
  The tree that a run walks. A regular file has the size that \<open>os.Lstat\<close> reports
  and what opening and reading it gives. A directory has its entries in the order
  in which \<open>readDirNames\<close> returns them (sorted by name), or cannot be read. A name
  whose \<open>os.Lstat\<close> fails, for instance because the entry was removed after the
  directory was read, is an entry of its own. Everything else (symbolic links,
  devices, sockets, pipes) is neither a directory nor a regular file.
\<close>

datatype node =
    Reg nat contents
  | Dir "(string \<times> node) list"
  | UnreadableDir go_error
  | Special
  | Unstatable go_error

text \<open>The \<open>os.FileInfo\<close> of a node: \<open>fi.Mode().IsDir()\<close>, \<open>fi.Mode().IsRegular()\<close>, \<open>fi.Size()\<close>.\<close>

fun IsDir :: "node \<Rightarrow> bool" where
  "IsDir (Dir entries) = True"
| "IsDir (UnreadableDir e) = True"
| "IsDir n = False"

fun IsRegular :: "node \<Rightarrow> bool" where
  "IsRegular (Reg sz c) = True"
| "IsRegular n = False"

fun Size :: "node \<Rightarrow> nat" where
  "Size (Reg sz c) = sz"
| "Size n = 0"

text \<open>What \<open>os.Open\<close> and reading find at a node; only regular files are ever opened.\<close>

fun node_contents :: "node \<Rightarrow> contents" where
  "node_contents (Reg sz c) = c"
| "node_contents n = ReadFails ErrInvalid"

text \<open>
  \<open>filepath.Ext\<close>: the loop runs from the end of the path to the last separator and
  returns the suffix that starts at the first dot it meets.
\<close>

fun ext_scan :: "string \<Rightarrow> string \<Rightarrow> string" where
  "ext_scan [] acc = []"
| "ext_scan (c # cs) acc =
     (if c = CHR ''/'' then []
      else if c = CHR ''.'' then c # acc
      else ext_scan cs (c # acc))"

definition Ext :: "string \<Rightarrow> string" where
  "Ext path = ext_scan (rev path) []"

text \<open>\<open>filepath.Base\<close>: the last element of the path, after trailing separators are removed.\<close>

definition Base :: "string \<Rightarrow> string" where
  "Base path =
     (if path = [] then ''.''
      else
        (let stripped = rev (dropWhile (\<lambda>c. c = CHR ''/'') (rev path));
             element = rev (takeWhile (\<lambda>c. c \<noteq> CHR ''/'') (rev stripped))
         in if element = [] then ''/'' else element))"

text \<open>
  \<open>filepath.Join(path, name)\<close> as \<open>filepath.Walk\<close> uses it, for a directory path in the
  form \<open>filepath.Clean\<close> gives (possibly followed by one separator) and the name of
  a directory entry: \<open>Join(".", "a")\<close> is \<open>a\<close>, \<open>Join("/", "a")\<close> is \<open>/a\<close>, and
  \<open>Join("r", "a")\<close> is \<open>r/a\<close>.
\<close>

definition Join :: "string \<Rightarrow> string \<Rightarrow> string" where
  "Join path name =
     (if path = [] \<or> path = ''.'' then name
      else if last path = CHR ''/'' then path @ name
      else path @ ''/'' @ name)"

text \<open>
  A goroutine that the callback starts: \<open>go walkDir(p, ...)\<close> or \<open>go process(p, ...)\<close>,
  with what the file system has at \<open>p\<close>.
\<close>

datatype spawn = GoWalkDir string node | GoProcess string node

text \<open>
  A \<open>filepath.WalkFunc\<close> gets the path, the file info and the error, and returns an
  error; here it also returns the goroutines it has started, in order. When the
  error is not nil the callbacks of this program do not look at the file info.
\<close>

type_synonym WalkFunc = "string \<Rightarrow> node \<Rightarrow> go_error option \<Rightarrow> spawn list \<times> go_error option"

text \<open>
  \<open>filepath.Walk\<close> and its helper \<open>walk\<close>. \<open>walk\<close> is called after \<open>os.Lstat\<close> has
  succeeded. For a directory it reads the names, calls the function on the directory
  with the error of that, and then goes through the names: a name whose \<open>lstat\<close>
  fails is given to the function with the error, every other one is walked.
  \<open>SkipDir\<close> from a directory only skips that directory, every other error ends
  the walk.
\<close>

fun walk :: "WalkFunc \<Rightarrow> string \<Rightarrow> node \<Rightarrow> spawn list \<times> go_error option"
  and walk_names :: "WalkFunc \<Rightarrow> string \<Rightarrow> (string \<times> node) list \<Rightarrow> spawn list \<times> go_error option"
where
  "walk walkFn path (Dir entries) =
     (case walkFn path (Dir entries) None of
        (sp, Some err1) \<Rightarrow> (sp, Some err1)
      | (sp, None) \<Rightarrow>
          (case walk_names walkFn path entries of (sp', r) \<Rightarrow> (sp @ sp', r)))"
| "walk walkFn path (UnreadableDir err) = walkFn path (UnreadableDir err) (Some err)"
| "walk walkFn path (Reg sz c) = walkFn path (Reg sz c) None"
| "walk walkFn path Special = walkFn path Special None"
| "walk walkFn path (Unstatable err) = walkFn path (Unstatable err) (Some err)"
| "walk_names walkFn path [] = ([], None)"
| "walk_names walkFn path ((name, n) # rest) =
     (case (case n of
              Unstatable err \<Rightarrow>
                (case walkFn (Join path name) n (Some err) of
                   (sp, r) \<Rightarrow> (sp, if r \<noteq> None \<and> r \<noteq> Some SkipDir then r else None))
            | _ \<Rightarrow>
                (case walk walkFn (Join path name) n of
                   (sp, r) \<Rightarrow>
                     (sp, if r \<noteq> None \<and> (\<not> IsDir n \<or> r \<noteq> Some SkipDir) then r else None))) of
        (sp, Some err) \<Rightarrow> (sp, Some err)
      | (sp, None) \<Rightarrow>
          (case walk_names walkFn path rest of (sp', r) \<Rightarrow> (sp @ sp', r)))"

definition Walk :: "string \<Rightarrow> node \<Rightarrow> WalkFunc \<Rightarrow> spawn list \<times> go_error option" where
  "Walk root n walkFn =
     (case walk walkFn root n of
        (sp, r) \<Rightarrow> (sp, if r = Some SkipDir then None else r))"

section \<open>The walker of walk4a\<close>

record IgnoreSet =
  ignoreDirExts :: "string set"
  ignoreDirs :: "string set"
  ignoreFiles :: "string set"

text \<open>The three package variables as the program initialises them.\<close>

definition walk4a_ignores :: IgnoreSet where
  "walk4a_ignores =
     \<lparr>ignoreDirExts = {''.app'', ''.pkg'', ''.git'', ''.lproj'', ''.pbproj'', ''.xcassets'',
                       ''.framework'', ''.xcodeproj'', ''.xcworkspace'', ''.xcdatamodel''},
      ignoreDirs = {},
      ignoreFiles = {''.DS_Store'', ''.gitignore''}\<rparr>"

text \<open>
  The closure \<open>visit\<close> of \<open>walkDir(dir, ...)\<close>. The counters \<open>nd\<close> and \<open>nf\<close> of the
  verbose output are left out; they are only printed.
\<close>

definition visit :: "IgnoreSet \<Rightarrow> string \<Rightarrow> WalkFunc" where
  "visit ign dir p fi err =
     (case err of
        Some e \<Rightarrow> (if e = ErrNotExist then ([], None) else ([], Some e))
      | None \<Rightarrow>
          if IsDir fi \<and> p \<noteq> dir then
            (if Ext p \<in> ignoreDirExts ign then ([], Some SkipDir)
             else if p \<in> ignoreDirs ign then ([], Some SkipDir)
             else ([GoWalkDir p fi], Some SkipDir))
          else if IsRegular fi \<and> Size fi > 0 then
            (if Base p \<notin> ignoreFiles ign then ([GoProcess p fi], None) else ([], None))
          else ([], None))"

section \<open>The goroutines of walk4a\<close>

type_synonym results = "string \<rightharpoonup> string list"

text \<open>
  Where a goroutine that runs \<open>walkDir\<close> or \<open>process\<close> stands. Each constructor is the
  statement it executes next.
  \<^item> \<open>WalkAcquire\<close>: \<open>walkDir\<close> at \<open>limits <- true\<close>;
  \<^item> \<open>WalkVisit\<close>: inside \<open>filepath.Walk\<close>, with the goroutines that \<open>visit\<close> has still
    to start and the value \<open>Walk\<close> will return; the next statement is \<open>wg.Add(1)\<close> for
    the first of them, or, when none is left, the deferred \<open><-limits\<close>;
  \<^item> \<open>WalkGo\<close>: after \<open>wg.Add(1)\<close>, at the \<open>go\<close> statement;
  \<^item> \<open>WalkDone\<close>: the deferred \<open>wg.Done()\<close>;
  \<^item> \<open>ProcAcquire\<close>: \<open>process\<close> at \<open>limits <- true\<close>;
  \<^item> \<open>ProcHash\<close>: the call of \<open>hashFile\<close>; \<open>ProcSend\<close>: the send of its value to \<open>pairs\<close>;
  \<^item> \<open>ProcRelease\<close>: \<open><-limits\<close>; \<open>ProcDone\<close>: \<open>wg.Done()\<close>;
  \<^item> \<open>Returned\<close>: the function has returned, \<open>walkDir\<close> with its error.
\<close>

datatype goroutine =
    WalkAcquire string node
  | WalkVisit "spawn list" "go_error option"
  | WalkGo spawn "spawn list" "go_error option"
  | WalkDone "go_error option"
  | ProcAcquire string node
  | ProcHash string node
  | ProcSend pair
  | ProcRelease
  | ProcDone
  | Returned "go_error option"

text \<open>
  Where \<open>searchTree\<close> stands, in the main goroutine: at \<open>wg.Add(1)\<close>, inside its own
  call of \<open>walkDir\<close>, at \<open>wg.Wait()\<close>, at \<open>close(pairs)\<close>, at \<open>hashes := <-result\<close>, or
  returned.
\<close>

datatype main_pc =
    MainAdd string node
  | MainWalk goroutine
  | MainWait
  | MainClose
  | MainRecv
  | MainReturn results

text \<open>The goroutine that runs \<open>collect\<close>: in its loop, at \<open>result <- hashes\<close>, or returned.\<close>

datatype collector_pc =
    Collecting results
  | Sending results
  | Collected

datatype exit = ExitFatal fatal | Panic string

text \<open>
  The shared state: the wait group's counter, the number of values in the channel
  \<open>limits\<close>, the buffer of the channel \<open>pairs\<close> and whether it is closed, the goroutines
  started by \<open>go\<close> statements in the order of their creation, and how the process has
  ended, if it has.
\<close>

record state =
  main :: main_pc
  gos :: "goroutine list"
  collector :: collector_pc
  wg :: int
  limits :: nat
  pairs :: "pair list"
  pairs_closed :: bool
  exited :: "exit option"

text \<open>What a run is given: the digest, the ignore sets and the capacity of both channels.\<close>

record world =
  md5hex :: "bytes \<Rightarrow> string"
  ignore :: IgnoreSet
  nworkers :: nat

fun start :: "spawn \<Rightarrow> goroutine" where
  "start (GoWalkDir p n) = WalkAcquire p n"
| "start (GoProcess p n) = ProcAcquire p n"

text \<open>
  \<open>wg.Done()\<close> panics when the counter becomes negative. A send on a buffered channel
  blocks while the buffer is full, a receive while it is empty; a send on a closed
  channel panics.
\<close>

definition wg_Done :: "state \<Rightarrow> state" where
  "wg_Done s =
     (if wg s - 1 < 0 then s\<lparr>wg := wg s - 1, exited := Some (Panic ''sync: negative WaitGroup counter'')\<rparr>
      else s\<lparr>wg := wg s - 1\<rparr>)"

text \<open>
  One statement of a goroutine in \<open>walkDir\<close> or \<open>process\<close>: its new position and the
  new shared state, or \<open>None\<close> when the statement blocks or the function has returned.
\<close>

fun go_step :: "world \<Rightarrow> goroutine \<Rightarrow> state \<Rightarrow> (goroutine \<times> state) option" where
  "go_step w (WalkAcquire dir n) s =
     (if limits s < nworkers w then
        (case Walk dir n (visit (ignore w) dir) of
           (sps, r) \<Rightarrow> Some (WalkVisit sps r, s\<lparr>limits := limits s + 1\<rparr>))
      else None)"
| "go_step w (WalkVisit (sp # sps) r) s = Some (WalkGo sp sps r, s\<lparr>wg := wg s + 1\<rparr>)"
| "go_step w (WalkGo sp sps r) s = Some (WalkVisit sps r, s\<lparr>gos := gos s @ [start sp]\<rparr>)"
| "go_step w (WalkVisit [] r) s =
     (if limits s > 0 then Some (WalkDone r, s\<lparr>limits := limits s - 1\<rparr>) else None)"
| "go_step w (WalkDone r) s = Some (Returned r, wg_Done s)"
| "go_step w (ProcAcquire p n) s =
     (if limits s < nworkers w then Some (ProcHash p n, s\<lparr>limits := limits s + 1\<rparr>) else None)"
| "go_step w (ProcHash p n) s =
     (case hashFile (md5hex w) p (node_contents n) of
        Inl f \<Rightarrow> Some (ProcHash p n, s\<lparr>exited := Some (ExitFatal f)\<rparr>)
      | Inr pr \<Rightarrow> Some (ProcSend pr, s))"
| "go_step w (ProcSend pr) s =
     (if pairs_closed s then Some (ProcSend pr, s\<lparr>exited := Some (Panic ''send on closed channel'')\<rparr>)
      else if length (pairs s) < nworkers w then Some (ProcRelease, s\<lparr>pairs := pairs s @ [pr]\<rparr>)
      else None)"
| "go_step w ProcRelease s =
     (if limits s > 0 then Some (ProcDone, s\<lparr>limits := limits s - 1\<rparr>) else None)"
| "go_step w ProcDone s = Some (Returned None, wg_Done s)"
| "go_step w (Returned r) s = None"

text \<open>
  The loop of \<open>collect\<close>: \<open>hashes[pair.hash] = append(hashes[pair.hash], pair.path)\<close>,
  where a missing key reads as the nil slice.
\<close>

definition add_pair :: "results \<Rightarrow> pair \<Rightarrow> results" where
  "add_pair hashes pr =
     hashes(fst pr \<mapsto> (case hashes (fst pr) of None \<Rightarrow> [] | Some files \<Rightarrow> files) @ [snd pr])"

definition collect :: "pair list \<Rightarrow> results" where
  "collect prs = foldl add_pair Map.empty prs"

text \<open>
  One step of the collector. The loop takes the next pair, or ends when the channel
  is closed and empty. \<open>result\<close> has no buffer: the send and the receive in
  \<open>searchTree\<close> happen together.
\<close>

definition collector_step :: "state \<Rightarrow> state" where
  "collector_step s =
     (case collector s of
        Collecting hashes \<Rightarrow>
          (case pairs s of
             pr # rest \<Rightarrow> s\<lparr>collector := Collecting (add_pair hashes pr), pairs := rest\<rparr>
           | [] \<Rightarrow> if pairs_closed s then s\<lparr>collector := Sending hashes\<rparr> else s)
      | Sending hashes \<Rightarrow>
          (case main s of
             MainRecv \<Rightarrow> s\<lparr>collector := Collected, main := MainReturn hashes\<rparr>
           | _ \<Rightarrow> s)
      | Collected \<Rightarrow> s)"

text \<open>
  One step of \<open>searchTree\<close> in the main goroutine. Its call of \<open>walkDir\<close> runs like
  any other; when it has returned, an error is fatal.
\<close>

definition main_step :: "world \<Rightarrow> state \<Rightarrow> state" where
  "main_step w s =
     (case main s of
        MainAdd dir n \<Rightarrow> s\<lparr>main := MainWalk (WalkAcquire dir n), wg := wg s + 1\<rparr>
      | MainWalk (Returned r) \<Rightarrow>
          (case r of
             Some err \<Rightarrow> s\<lparr>exited := Some (ExitFatal (FatalErr err))\<rparr>
           | None \<Rightarrow> s\<lparr>main := MainWait\<rparr>)
      | MainWalk g \<Rightarrow>
          (case go_step w g s of
             None \<Rightarrow> s
           | Some (g', s') \<Rightarrow> s'\<lparr>main := MainWalk g'\<rparr>)
      | MainWait \<Rightarrow> if wg s = 0 then s\<lparr>main := MainClose\<rparr> else s
      | MainClose \<Rightarrow> s\<lparr>main := MainRecv, pairs_closed := True\<rparr>
      | MainRecv \<Rightarrow> s
      | MainReturn hashes \<Rightarrow> s)"

text \<open>The scheduler picks who runs next.\<close>

datatype actor = AMain | ACollector | AGo nat

definition step :: "world \<Rightarrow> state \<Rightarrow> actor \<Rightarrow> state" where
  "step w s a =
     (if exited s \<noteq> None then s
      else
        (case a of
           AMain \<Rightarrow> main_step w s
         | ACollector \<Rightarrow> collector_step s
         | AGo i \<Rightarrow>
             if i < length (gos s) then
               (case go_step w (gos s ! i) s of
                  None \<Rightarrow> s
                | Some (g', s') \<Rightarrow> s'\<lparr>gos := (gos s')[i := g']\<rparr>)
             else s))"

text \<open>
  \<open>searchTree(dir, nworkers, verb)\<close> on the tree \<open>n\<close>, from after \<open>go collect(pairs, result)\<close>,
  under a schedule.
\<close>

definition init :: "string \<Rightarrow> node \<Rightarrow> state" where
  "init dir n =
     \<lparr>main = MainAdd dir n, gos = [], collector = Collecting Map.empty, wg = 0, limits = 0,
      pairs = [], pairs_closed = False, exited = None\<rparr>"

definition searchTree :: "world \<Rightarrow> string \<Rightarrow> node \<Rightarrow> actor list \<Rightarrow> state" where
  "searchTree w dir n schedule = foldl (step w) (init dir n) schedule"

section \<open>Properties of the two-tree program\<close>

lemma groups_as_filter:
  "concat (map (\<lambda>(h, fs). if length fs > 1 then [Group h fs] else []) xs) =
     map (\<lambda>(h, fs). Group h fs) (filter (\<lambda>(h, fs). length fs > 1) xs)"
  by (induction xs) auto

text \<open>
  C9. When the two directories are the same path, the default mode, which compares
  two trees, ends with \<open>log.Fatal\<close> whatever the traversals would have given, and
  with \<open>-d\<close> the run goes on and reports the groups of more than one file of that
  one tree.
\<close>

theorem same_directory_twice:
  assumes "chooseDirs args dupFlag = Inr (d, d)"
  shows "walk3_main st1 st2 sortfold ign args dupFlag =
     (if dupFlag then
        (case st1 d d of
           Inl f \<Rightarrow> Inl f
         | Inr h1 \<Rightarrow>
             (case st2 d d of
                Inl f \<Rightarrow> Inl f
              | Inr h2 \<Rightarrow>
                  Inr (map (\<lambda>(h, fs). Group h fs) (filter (\<lambda>(h, fs). length fs > 1) h2))))
      else Inl (FatalMsg ''same directory specified twice''))"
proof -
  have "report True dup ign keys h1 h2 =
          map (\<lambda>(h, fs). Group h fs) (filter (\<lambda>(h, fs). length fs > 1) h2)" for dup keys h1 h2
    unfolding report_def using groups_as_filter [of h2] by simp
  with assms show ?thesis
    by (simp add: walk3_main_def configure_def split: sum.splits)
qed

theorem same_directory_twice_witness:
  "walk3_main (\<lambda>a b. Inr [(''t/x'', ''5d41'')]) (\<lambda>a b. Inr [(''5d41'', [''t/x'', ''t/y''])])
      (\<lambda>ks. ks) [] [''t'', ''t''] False = Inl (FatalMsg ''same directory specified twice'')
   \<and> walk3_main (\<lambda>a b. Inr [(''t/x'', ''5d41'')]) (\<lambda>a b. Inr [(''5d41'', [''t/x'', ''t/y''])])
      (\<lambda>ks. ks) [] [''t'', ''t''] True = Inr [Group ''5d41'' [''t/x'', ''t/y'']]"
proof -
  have a: "chooseDirs [''t'', ''t''] False = Inr (''t'', ''t'')"
    by (simp add: chooseDirs_def)
  have b: "chooseDirs [''t'', ''t''] True = Inr (''t'', ''t'')"
    by (simp add: chooseDirs_def)
  show ?thesis
    using same_directory_twice [OF a, of "\<lambda>a b. Inr [(''t/x'', ''5d41'')]"
            "\<lambda>a b. Inr [(''5d41'', [''t/x'', ''t/y''])]" "\<lambda>ks. ks" "[]"]
          same_directory_twice [OF b, of "\<lambda>a b. Inr [(''t/x'', ''5d41'')]"
            "\<lambda>a b. Inr [(''5d41'', [''t/x'', ''t/y''])]" "\<lambda>ks. ks" "[]"]
    by simp
qed

text \<open>
  C8, at the input where it fails. The file \<open>a/p.txt\<close> of the first tree has its only
  copy in the second tree under \<open>b/old/\<close>, which \<open>-i b/old/\<close> excludes. With \<open>-d\<close>
  the filtered list is empty and nothing is printed; without \<open>-d\<close> the hash is still
  a key of the second index and nothing is printed either.
\<close>

theorem excluded_copy_reported_in_neither_mode:
  "report False True [''b/old/''] [''a/p.txt'']
      [(''a/p.txt'', ''5d41402abc4b2a76b9719d911017c592'')]
      [(''5d41402abc4b2a76b9719d911017c592'', [''b/old/q.txt''])] = []
   \<and> report False False [''b/old/''] [''a/p.txt'']
      [(''a/p.txt'', ''5d41402abc4b2a76b9719d911017c592'')]
      [(''5d41402abc4b2a76b9719d911017c592'', [''b/old/q.txt''])] = []"
  by (simp add: report_def reportFile_def stripIgnored_def removeWithPrefix_def)

section \<open>Properties of hashFile\<close>

text \<open>
  C3, at the inputs where it fails. When \<open>os.Open\<close> fails, \<open>hashFile\<close> ends the
  process for every error: an error other than the sentinel \<open>os.ErrNotExist\<close> is
  fatal at once, and after the sentinel the copy from the nil file fails and is fatal.
\<close>

theorem hashFile_open_error_is_fatal:
  "hashFile md5 path (OpenFails e) =
     Inl (FatalErr (if e = ErrNotExist then ErrInvalid else e))"
  by (simp add: hashFile_def)

section \<open>Permits and the wait group\<close>

text \<open>
  A goroutine holds a permit from its send to \<open>limits\<close> until its receive from it.
  The wait group owes one \<open>Done\<close> for every goroutine that has not yet called it,
  and one more for a goroutine that has called \<open>wg.Add(1)\<close> and has not yet
  executed the \<open>go\<close> statement. The call of \<open>walkDir\<close> in \<open>searchTree\<close> counts as a
  goroutine of its own.
\<close>

fun holding :: "goroutine \<Rightarrow> nat" where
  "holding (WalkVisit sps r) = 1"
| "holding (WalkGo sp sps r) = 1"
| "holding (ProcHash p n) = 1"
| "holding (ProcSend pr) = 1"
| "holding ProcRelease = 1"
| "holding g = 0"

fun counted :: "goroutine \<Rightarrow> int" where
  "counted (Returned r) = 0"
| "counted (WalkGo sp sps r) = 2"
| "counted g = 1"

definition main_goroutine :: "state \<Rightarrow> goroutine list" where
  "main_goroutine s = (case main s of MainWalk g \<Rightarrow> [g] | _ \<Rightarrow> [])"

definition goroutines :: "state \<Rightarrow> goroutine list" where
  "goroutines s = main_goroutine s @ gos s"

definition permits_held :: "state \<Rightarrow> nat" where
  "permits_held s = sum_list (map holding (goroutines s))"

definition outstanding :: "state \<Rightarrow> int" where
  "outstanding s = sum_list (map counted (goroutines s))"

lemma sum_list_map_update:
  fixes f :: "'a \<Rightarrow> 'b::comm_monoid_add"
  shows "i < length xs \<Longrightarrow>
    sum_list (map f (xs[i := y])) + f (xs ! i) = sum_list (map f xs) + f y"
proof (induction xs arbitrary: i)
  case Nil
  then show ?case by simp
next
  case (Cons x xs)
  show ?case
  proof (cases i)
    case 0
    then show ?thesis by (simp add: ac_simps)
  next
    case (Suc j)
    with Cons.prems have "j < length xs" by simp
    from Cons.IH [OF this] Suc show ?thesis
      by (simp add: ac_simps)
  qed
qed

lemma counted_nonneg: "0 \<le> counted g"
  by (cases g) auto

lemma counted_zero: "counted g = 0 \<longleftrightarrow> (\<exists>r. g = Returned r)"
  by (cases g) auto

fun is_panic :: "exit option \<Rightarrow> bool" where
  "is_panic (Some (Panic x)) = True"
| "is_panic e = False"

lemma go_step_effect:
  assumes "go_step w g s = Some (g', s')"
  shows "\<exists>new. gos s' = gos s @ new
           \<and> wg s' + counted g = wg s + counted g' + sum_list (map counted new)
           \<and> limits s' + holding g = limits s + holding g' + sum_list (map holding new)
           \<and> main s' = main s \<and> collector s' = collector s \<and> pairs_closed s' = pairs_closed s
           \<and> (limits s \<le> nworkers w \<longrightarrow> limits s' \<le> nworkers w)
           \<and> (is_panic (exited s') \<longrightarrow> is_panic (exited s) \<or> wg s < 1 \<or> pairs_closed s)
           \<and> 1 \<le> counted g"
proof (cases g)
  case (WalkVisit sps r)
  with assms show ?thesis by (cases sps) (auto split: if_splits)
next
  case (WalkGo sp sps r)
  with assms show ?thesis by (cases sp) auto
qed (use assms in \<open>auto simp: wg_Done_def split: if_splits prod.splits sum.splits\<close>)

fun after_wait :: "main_pc \<Rightarrow> bool" where
  "after_wait MainClose = True"
| "after_wait MainRecv = True"
| "after_wait (MainReturn h) = True"
| "after_wait m = False"

fun receiving :: "main_pc \<Rightarrow> bool" where
  "receiving MainRecv = True"
| "receiving (MainReturn h) = True"
| "receiving m = False"

definition protocol :: "world \<Rightarrow> state \<Rightarrow> bool" where
  "protocol w s \<longleftrightarrow>
     wg s = outstanding s \<and> limits s = permits_held s \<and> limits s \<le> nworkers w
     \<and> (after_wait (main s) \<longrightarrow> wg s = 0)
     \<and> (pairs_closed s \<longrightarrow> receiving (main s))
     \<and> \<not> is_panic (exited s)"

lemma protocol_init: "protocol w (init dir n)"
  by (simp add: protocol_def init_def outstanding_def permits_held_def goroutines_def main_goroutine_def)

lemma outstanding_zero:
  assumes "outstanding s = 0"
  shows "\<forall>g\<in>set (goroutines s). \<exists>r. g = Returned r"
proof -
  have "\<forall>x\<in>set (map counted (goroutines s)). x = 0"
    using assms counted_nonneg
    by (subst sum_list_nonneg_eq_0_iff [symmetric]) (auto simp: outstanding_def)
  then show ?thesis by (auto simp: counted_zero)
qed

lemma protocol_collector_step:
  assumes "protocol w s"
  shows "protocol w (collector_step s)"
  using assms
  by (auto simp: protocol_def collector_step_def outstanding_def permits_held_def goroutines_def
        main_goroutine_def split: collector_pc.splits list.splits main_pc.splits)

lemma counted_le_outstanding:
  assumes "g \<in> set (goroutines s)"
  shows "counted g \<le> outstanding s"
  unfolding outstanding_def
  using assms counted_nonneg
  by (intro member_le_sum_list) auto

lemma protocol_go_step_main:
  assumes "protocol w s" and "main s = MainWalk g" and "go_step w g s = Some (g', s')"
  shows "protocol w (s'\<lparr>main := MainWalk g'\<rparr>)"
proof -
  from go_step_effect [OF assms(3)] obtain new where e:
    "gos s' = gos s @ new"
    "wg s' + counted g = wg s + counted g' + sum_list (map counted new)"
    "limits s' + holding g = limits s + holding g' + sum_list (map holding new)"
    "main s' = main s" "collector s' = collector s" "pairs_closed s' = pairs_closed s"
    "limits s \<le> nworkers w \<longrightarrow> limits s' \<le> nworkers w"
    "is_panic (exited s') \<longrightarrow> is_panic (exited s) \<or> wg s < 1 \<or> pairs_closed s"
    "1 \<le> counted g"
    by blast
  have g: "g \<in> set (goroutines s)"
    using assms(2) by (simp add: goroutines_def main_goroutine_def)
  have "1 \<le> wg s"
    using counted_le_outstanding [OF g] e(9) assms(1) by (simp add: protocol_def)
  moreover have "\<not> pairs_closed s"
    using assms(1,2) by (auto simp: protocol_def)
  ultimately have "\<not> is_panic (exited s')"
    using e(8) assms(1) by (auto simp: protocol_def)
  then show ?thesis
    using assms(1,2) e
    by (auto simp: protocol_def outstanding_def permits_held_def goroutines_def main_goroutine_def)
qed

lemma protocol_go_step_gos:
  assumes "protocol w s" and "i < length (gos s)" and "go_step w (gos s ! i) s = Some (g', s')"
  shows "protocol w (s'\<lparr>gos := (gos s')[i := g']\<rparr>)"
proof -
  define g where "g = gos s ! i"
  from go_step_effect [OF assms(3)] obtain new where e:
    "gos s' = gos s @ new"
    "wg s' + counted g = wg s + counted g' + sum_list (map counted new)"
    "limits s' + holding g = limits s + holding g' + sum_list (map holding new)"
    "main s' = main s" "collector s' = collector s" "pairs_closed s' = pairs_closed s"
    "limits s \<le> nworkers w \<longrightarrow> limits s' \<le> nworkers w"
    "is_panic (exited s') \<longrightarrow> is_panic (exited s) \<or> wg s < 1 \<or> pairs_closed s"
    "1 \<le> counted g"
    unfolding g_def by blast
  have g: "g \<in> set (goroutines s)"
    using assms(2) by (simp add: goroutines_def g_def)
  have wg1: "1 \<le> wg s"
    using counted_le_outstanding [OF g] e(9) assms(1) by (simp add: protocol_def)
  have "\<not> after_wait (main s)"
    using wg1 assms(1) by (auto simp: protocol_def)
  then have nc: "\<not> pairs_closed s"
    using assms(1) by (cases "main s") (auto simp: protocol_def)
  have np: "\<not> is_panic (exited s')"
    using e(8) assms(1) wg1 nc by (auto simp: protocol_def)
  have upd: "(gos s')[i := g'] = (gos s)[i := g'] @ new"
    using assms(2) e(1) by (simp add: list_update_append1)
  have c: "sum_list (map counted ((gos s)[i := g'])) + counted g = sum_list (map counted (gos s)) + counted g'"
    using sum_list_map_update [OF assms(2), of counted g'] by (simp add: g_def)
  have h: "sum_list (map holding ((gos s)[i := g'])) + holding g = sum_list (map holding (gos s)) + holding g'"
    using sum_list_map_update [OF assms(2), of holding g'] by (simp add: g_def)
  show ?thesis
    using assms(1) e(2-7) np upd c h \<open>\<not> after_wait (main s)\<close> nc
    by (auto simp: protocol_def outstanding_def permits_held_def goroutines_def main_goroutine_def)
qed

lemma protocol_main_step:
  assumes "protocol w s"
  shows "protocol w (main_step w s)"
proof (cases "main s")
  case (MainWalk g)
  show ?thesis
  proof (cases "go_step w g s")
    case None
    with MainWalk assms show ?thesis
      by (cases g) (auto simp: main_step_def protocol_def outstanding_def permits_held_def goroutines_def main_goroutine_def split: option.splits)
  next
    case (Some a)
    then obtain g' s' where "go_step w g s = Some (g', s')" by (cases a) auto
    with protocol_go_step_main [OF assms MainWalk this] MainWalk show ?thesis
      by (cases g) (auto simp: main_step_def)
  qed
qed (use assms in \<open>auto simp: main_step_def protocol_def outstanding_def permits_held_def goroutines_def main_goroutine_def\<close>)

lemma protocol_step:
  assumes "protocol w s"
  shows "protocol w (step w s a)"
  using assms protocol_main_step protocol_collector_step protocol_go_step_gos
  by (auto simp: step_def split: actor.splits option.splits)

lemma protocol_searchTree: "protocol w (searchTree w dir n schedule)"
  unfolding searchTree_def
  by (induction schedule rule: rev_induct) (auto simp: protocol_init protocol_step)

text \<open>
  C6. After every schedule, the goroutines that hold a permit, those that walk a
  directory and those that hash a file together, are as many as the values in the
  channel \<open>limits\<close>, and at most \<open>nworkers\<close>, its capacity.
\<close>

theorem permits_held_bounded:
  "permits_held (searchTree w dir n schedule) = limits (searchTree w dir n schedule)
   \<and> permits_held (searchTree w dir n schedule) \<le> nworkers w"
proof -
  have "protocol w (searchTree w dir n schedule)"
    by (rule protocol_searchTree)
  then show ?thesis
    by (simp add: protocol_def)
qed

text \<open>
  C7. After every schedule the counter of the wait group is what is owed: every
  goroutine that exists and has not called \<open>Done\<close> is counted once, and so is every
  \<open>go\<close> statement whose \<open>wg.Add(1)\<close> has been executed. So the counter is never
  negative, it is zero only when every goroutine has returned, \<open>pairs\<close> is closed only
  when the counter is zero, and the process never panics: neither \<open>wg.Done()\<close> below
  zero nor a send on the closed channel happens.
\<close>

theorem wait_group_protocol:
  "wg (searchTree w dir n schedule) = outstanding (searchTree w dir n schedule)
   \<and> 0 \<le> wg (searchTree w dir n schedule)
   \<and> (wg (searchTree w dir n schedule) = 0 \<longrightarrow>
        (\<forall>g\<in>set (goroutines (searchTree w dir n schedule)). \<exists>r. g = Returned r))
   \<and> (pairs_closed (searchTree w dir n schedule) \<longrightarrow> wg (searchTree w dir n schedule) = 0)
   \<and> \<not> is_panic (exited (searchTree w dir n schedule))"
proof -
  define s where "s = searchTree w dir n schedule"
  have i: "protocol w s"
    unfolding s_def by (rule protocol_searchTree)
  have nonneg: "0 \<le> outstanding s"
    unfolding outstanding_def using counted_nonneg by (intro sum_list_nonneg) auto
  have closed: "wg s = 0" if "pairs_closed s"
  proof -
    from i that have "receiving (main s)" by (simp add: protocol_def)
    then have "after_wait (main s)" by (cases "main s") auto
    with i show ?thesis by (simp add: protocol_def)
  qed
  have zero: "\<forall>g\<in>set (goroutines s). \<exists>r. g = Returned r" if "wg s = 0"
    using i that outstanding_zero [of s] by (simp add: protocol_def)
  from i nonneg closed zero show ?thesis
    unfolding s_def [symmetric] by (simp add: protocol_def)
qed

theorem wait_group_protocol_witness:
  "pairs_closed (searchTree \<lparr>md5hex = (\<lambda>bs. bs), ignore = walk4a_ignores, nworkers = 1\<rparr> ''r''
      (Dir [(''a'', Reg 3 (Bytes ''abc''))])
      [AMain, AMain, AMain, AMain, AMain, AMain, AMain, AGo 0, AGo 0, AGo 0, AGo 0, AGo 0,
       AMain, AMain, ACollector, ACollector, ACollector])
   \<and> wg (searchTree \<lparr>md5hex = (\<lambda>bs. bs), ignore = walk4a_ignores, nworkers = 1\<rparr> ''r''
      (Dir [(''a'', Reg 3 (Bytes ''abc''))])
      [AMain, AMain, AMain, AMain, AMain, AMain, AMain, AGo 0, AGo 0, AGo 0, AGo 0, AGo 0,
       AMain, AMain, ACollector, ACollector, ACollector]) = 0
   \<and> set (goroutines (searchTree \<lparr>md5hex = (\<lambda>bs. bs), ignore = walk4a_ignores, nworkers = 1\<rparr> ''r''
      (Dir [(''a'', Reg 3 (Bytes ''abc''))])
      [AMain, AMain, AMain, AMain, AMain, AMain, AMain, AGo 0, AGo 0, AGo 0, AGo 0, AGo 0,
       AMain, AMain, ACollector, ACollector, ACollector])) \<subseteq> range Returned"
proof -
  have c: "pairs_closed (searchTree \<lparr>md5hex = (\<lambda>bs. bs), ignore = walk4a_ignores, nworkers = 1\<rparr> ''r''
      (Dir [(''a'', Reg 3 (Bytes ''abc''))])
      [AMain, AMain, AMain, AMain, AMain, AMain, AMain, AGo 0, AGo 0, AGo 0, AGo 0, AGo 0,
       AMain, AMain, ACollector, ACollector, ACollector])"
    by code_simp
  show ?thesis
    using c wait_group_protocol [of "\<lparr>md5hex = (\<lambda>bs. bs), ignore = walk4a_ignores, nworkers = 1\<rparr>"
      "''r''" "Dir [(''a'', Reg 3 (Bytes ''abc''))]"
      "[AMain, AMain, AMain, AMain, AMain, AMain, AMain, AGo 0, AGo 0, AGo 0, AGo 0, AGo 0,
        AMain, AMain, ACollector, ACollector, ACollector]"]
    by auto
qed


section \<open>The pairs that a run collects\<close>

text \<open>
  A goroutine started by \<open>visit\<close> for a directory walks a node that is smaller than
  the node of the goroutine that started it.
\<close>

lemma walk_spawn_size:
  "GoWalkDir p m \<in> set (fst (walk (visit ign dir) path n)) \<Longrightarrow>
     size m \<le> size n \<and> (path = dir \<longrightarrow> size m < size n)"
  "GoWalkDir p m \<in> set (fst (walk_names (visit ign dir) path entries)) \<Longrightarrow>
     size m < size (Dir entries)"
proof (induction "visit ign dir" path n and "visit ign dir" path entries rule: walk_walk_names.induct)
  case (1 path entries)
  then show ?case
    by (auto simp: visit_def split: prod.splits option.splits if_splits)
next
  case (7 path name n rest)
  then show ?case
    by (auto simp: visit_def split: prod.splits option.splits if_splits node.splits)
qed (auto simp: visit_def split: if_splits)

lemma Walk_spawn_size:
  "GoWalkDir p m \<in> set (fst (Walk dir n (visit ign dir))) \<Longrightarrow> size m < size n"
  using walk_spawn_size(1) [of p m ign dir dir n]
  by (auto simp: Walk_def split: prod.splits)

text \<open>
  What a goroutine will send to \<open>pairs\<close>, together with the goroutines that it
  starts: \<open>process\<close> sends the pair of its file unless \<open>hashFile\<close> ends the process,
  \<open>walkDir\<close> sends what the goroutines send that its \<open>visit\<close> starts.
\<close>

definition yield_process :: "world \<Rightarrow> string \<Rightarrow> node \<Rightarrow> pair multiset" where
  "yield_process w p n =
     (case hashFile (md5hex w) p (node_contents n) of Inl f \<Rightarrow> {#} | Inr pr \<Rightarrow> {#pr#})"

function yield_walkDir :: "world \<Rightarrow> string \<Rightarrow> node \<Rightarrow> pair multiset" where
  "yield_walkDir w dir n =
     (\<Sum>sp\<leftarrow>fst (Walk dir n (visit (ignore w) dir)).
        case sp of GoWalkDir p m \<Rightarrow> yield_walkDir w p m | GoProcess p m \<Rightarrow> yield_process w p m)"
  by pat_completeness auto
termination
  by (relation "measure (\<lambda>(w, dir, n). size n)") (auto dest: Walk_spawn_size)

declare yield_walkDir.simps [simp del]

fun yield_spawn :: "world \<Rightarrow> spawn \<Rightarrow> pair multiset" where
  "yield_spawn w (GoWalkDir p m) = yield_walkDir w p m"
| "yield_spawn w (GoProcess p m) = yield_process w p m"

lemma yield_walkDir_spawns:
  "yield_walkDir w dir n = (\<Sum>sp\<leftarrow>fst (Walk dir n (visit (ignore w) dir)). yield_spawn w sp)"
proof -
  have "(\<lambda>sp. case sp of GoWalkDir p m \<Rightarrow> yield_walkDir w p m | GoProcess p m \<Rightarrow> yield_process w p m)
          = yield_spawn w"
    by (rule ext) (simp split: spawn.splits)
  then show ?thesis
    by (subst yield_walkDir.simps) simp
qed

text \<open>
  What a goroutine at a given statement has still to send, with the goroutines it
  has still to start; \<open>pending\<close> adds the pairs that wait in the channel.
  \<open>hashes_of\<close> is the map that \<open>collect\<close> has built so far, \<open>files_of h k\<close> is the
  Go expression \<open>h[k]\<close>, and \<open>paths_with k\<close> selects the paths of the pairs with hash \<open>k\<close>.
\<close>

fun todo :: "world \<Rightarrow> goroutine \<Rightarrow> pair multiset" where
  "todo w (WalkAcquire dir n) = yield_walkDir w dir n"
| "todo w (WalkVisit sps r) = (\<Sum>sp\<leftarrow>sps. yield_spawn w sp)"
| "todo w (WalkGo sp sps r) = yield_spawn w sp + (\<Sum>sp\<leftarrow>sps. yield_spawn w sp)"
| "todo w (ProcAcquire p n) = yield_process w p n"
| "todo w (ProcHash p n) = yield_process w p n"
| "todo w (ProcSend pr) = {#pr#}"
| "todo w g = {#}"

definition pending :: "world \<Rightarrow> state \<Rightarrow> pair multiset" where
  "pending w s =
     (case main s of MainAdd dir n \<Rightarrow> yield_walkDir w dir n | _ \<Rightarrow> {#})
     + sum_list (map (todo w) (goroutines s)) + mset (pairs s)"

definition hashes_of :: "state \<Rightarrow> results" where
  "hashes_of s =
     (case collector s of
        Collecting h \<Rightarrow> h
      | Sending h \<Rightarrow> h
      | Collected \<Rightarrow> (case main s of MainReturn h \<Rightarrow> h | _ \<Rightarrow> Map.empty))"

definition files_of :: "results \<Rightarrow> string \<Rightarrow> string list" where
  "files_of h k = (case h k of None \<Rightarrow> [] | Some fs \<Rightarrow> fs)"

definition paths_with :: "string \<Rightarrow> pair multiset \<Rightarrow> string multiset" where
  "paths_with k M = image_mset snd (filter_mset (\<lambda>pr. fst pr = k) M)"

fun spawned :: "goroutine \<Rightarrow> goroutine list" where
  "spawned (WalkGo sp sps r) = [start sp]"
| "spawned g = []"

lemma go_step_todo:
  assumes "go_step w g s = Some (g', s')"
  shows "gos s' = gos s @ spawned g"
    and "mset (pairs s') + todo w g' + sum_list (map (todo w) (spawned g)) = mset (pairs s) + todo w g"
    and "pairs_closed s \<longrightarrow> pairs s' = pairs s"
proof -
  show "gos s' = gos s @ spawned g"
  proof (cases g)
    case (WalkVisit sps r)
    with assms show ?thesis by (cases sps) (auto split: if_splits)
  qed (use assms in \<open>auto simp: wg_Done_def split: if_splits prod.splits sum.splits\<close>)
  show "mset (pairs s') + todo w g' + sum_list (map (todo w) (spawned g)) = mset (pairs s) + todo w g"
  proof (cases g)
    case (WalkAcquire dir n)
    with assms show ?thesis
      by (auto simp: yield_walkDir_spawns [of w dir n] split: if_splits prod.splits)
  next
    case (WalkVisit sps r)
    with assms show ?thesis by (cases sps) (auto split: if_splits)
  next
    case (WalkGo sp sps r)
    with assms show ?thesis by (cases sp) auto
  next
    case (ProcHash p n)
    with assms show ?thesis
      by (auto simp: yield_process_def split: sum.splits)
  qed (use assms in \<open>auto simp: wg_Done_def split: if_splits\<close>)
  show "pairs_closed s \<longrightarrow> pairs s' = pairs s"
  proof (cases g)
    case (WalkVisit sps r)
    with assms show ?thesis by (cases sps) (auto split: if_splits)
  qed (use assms in \<open>auto simp: wg_Done_def split: if_splits prod.splits sum.splits\<close>)
qed


fun returned :: "main_pc \<Rightarrow> bool" where
  "returned (MainReturn h) = True"
| "returned m = False"

definition accounting :: "world \<Rightarrow> string \<Rightarrow> node \<Rightarrow> state \<Rightarrow> bool" where
  "accounting w dir n s \<longleftrightarrow>
     (\<forall>k. mset (files_of (hashes_of s) k) + paths_with k (pending w s)
            = paths_with k (yield_walkDir w dir n))
     \<and> (\<forall>k. hashes_of s k \<noteq> Some [])
     \<and> (case collector s of
           Collecting h \<Rightarrow> \<not> returned (main s)
         | Sending h \<Rightarrow> \<not> returned (main s) \<and> pairs s = [] \<and> pairs_closed s
         | Collected \<Rightarrow> returned (main s) \<and> pairs s = [] \<and> pairs_closed s)"

lemma paths_with_add [simp]: "paths_with k (A + B) = paths_with k A + paths_with k B"
  by (simp add: paths_with_def)

lemma paths_with_empty [simp]: "paths_with k {#} = {#}"
  by (simp add: paths_with_def)

lemma paths_with_add_mset [simp]:
  "paths_with k (add_mset pr A) = (if fst pr = k then add_mset (snd pr) (paths_with k A) else paths_with k A)"
  by (simp add: paths_with_def)

lemma files_of_add_pair:
  "files_of (add_pair h pr) k = (if fst pr = k then files_of h k @ [snd pr] else files_of h k)"
  by (auto simp: files_of_def add_pair_def)

lemma accounting_init: "accounting w dir n (init dir n)"
  by (simp add: accounting_def init_def pending_def hashes_of_def files_of_def goroutines_def
        main_goroutine_def)

lemma accounting_collector_step:
  assumes "accounting w dir n s"
  shows "accounting w dir n (collector_step s)"
proof (cases "collector s")
  case (Collecting h)
  show ?thesis
  proof (cases "pairs s")
    case Nil
    with Collecting assms show ?thesis
      by (auto simp: accounting_def collector_step_def hashes_of_def pending_def goroutines_def
            main_goroutine_def)
  next
    case (Cons pr rest)
    define s' where "s' = s\<lparr>collector := Collecting (add_pair h pr), pairs := rest\<rparr>"
    have p: "pending w s = add_mset pr (pending w s')"
      using Cons by (simp add: pending_def goroutines_def main_goroutine_def s'_def)
    have old: "mset (files_of h k) + paths_with k (pending w s) = paths_with k (yield_walkDir w dir n)" for k
      using assms Collecting by (simp add: accounting_def hashes_of_def)
    have "mset (files_of (add_pair h pr) k) + paths_with k (pending w s')
            = paths_with k (yield_walkDir w dir n)" for k
      using old [of k] by (cases "fst pr = k") (simp_all add: p files_of_add_pair)
    moreover have "add_pair h pr k \<noteq> Some []" for k
      using assms Collecting by (auto simp: accounting_def hashes_of_def add_pair_def)
    moreover have "collector_step s = s'"
      using Collecting Cons by (simp add: collector_step_def s'_def)
    moreover have "hashes_of s' = add_pair h pr" "collector s' = Collecting (add_pair h pr)"
      "main s' = main s"
      by (simp_all add: hashes_of_def s'_def)
    ultimately show ?thesis
      using assms Collecting by (simp add: accounting_def)
  qed
next
  case (Sending h)
  with assms show ?thesis
    by (cases "main s")
       (auto simp: accounting_def collector_step_def hashes_of_def pending_def goroutines_def
          main_goroutine_def)
next
  case Collected
  with assms show ?thesis
    by (simp add: collector_step_def)
qed


lemma go_step_frame:
  assumes "go_step w g s = Some (g', s')"
  shows "main s' = main s" and "collector s' = collector s" and "pairs_closed s' = pairs_closed s"
  using go_step_effect [OF assms] by auto

lemma accounting_unchanged:
  assumes "accounting w dir n s"
    and "pending w s' = pending w s"
    and "collector s' = collector s"
    and "returned (main s') = returned (main s)"
    and "\<not> returned (main s)"
    and "pairs_closed s' = pairs_closed s"
    and "pairs_closed s \<longrightarrow> pairs s' = pairs s"
  shows "accounting w dir n s'"
proof -
  have "collector s \<noteq> Collected"
    using assms(1,5) by (auto simp: accounting_def)
  then have "hashes_of s' = hashes_of s"
    using assms(3) by (cases "collector s") (simp_all add: hashes_of_def)
  with assms show ?thesis
    by (cases "collector s") (simp_all add: accounting_def)
qed

lemma accounting_go_step_main:
  assumes "accounting w dir n s" and "main s = MainWalk g" and "go_step w g s = Some (g', s')"
  shows "accounting w dir n (s'\<lparr>main := MainWalk g'\<rparr>)"
proof (rule accounting_unchanged [OF assms(1)])
  show "pending w (s'\<lparr>main := MainWalk g'\<rparr>) = pending w s"
    using go_step_todo(1,2) [OF assms(3)] assms(2)
    by (simp add: pending_def goroutines_def main_goroutine_def ac_simps)
qed (use assms(2) go_step_frame [OF assms(3)] go_step_todo(3) [OF assms(3)] in auto)

lemma accounting_go_step_gos:
  assumes "accounting w dir n s" and "i < length (gos s)"
    and "go_step w (gos s ! i) s = Some (g', s')" and "\<not> returned (main s)"
  shows "accounting w dir n (s'\<lparr>gos := (gos s')[i := g']\<rparr>)"
proof (rule accounting_unchanged [OF assms(1)])
  define g where "g = gos s ! i"
  have upd: "(gos s')[i := g'] = (gos s)[i := g'] @ spawned g"
    using assms(2) go_step_todo(1) [OF assms(3)] by (simp add: list_update_append1 g_def)
  define A where "A = sum_list (map (todo w) ((gos s)[i := g']))"
  define B where "B = sum_list (map (todo w) (gos s))"
  define S where "S = sum_list (map (todo w) (spawned g))"
  have 1: "A + todo w g = B + todo w g'"
    using sum_list_map_update [OF assms(2), of "todo w" g'] by (simp add: g_def A_def B_def)
  have 2: "mset (pairs s') + todo w g' + S = mset (pairs s) + todo w g"
    using go_step_todo(2) [OF assms(3)] by (simp add: g_def S_def)
  have "(A + S + mset (pairs s')) + todo w g = (A + todo w g) + (S + mset (pairs s'))"
    by (simp only: ac_simps)
  also have "\<dots> = B + (mset (pairs s') + todo w g' + S)"
    unfolding 1 by (simp only: ac_simps)
  also have "\<dots> = (B + mset (pairs s)) + todo w g"
    unfolding 2 by (simp only: ac_simps)
  finally have "A + S + mset (pairs s') = B + mset (pairs s)"
    by simp
  then have "sum_list (map (todo w) ((gos s)[i := g'] @ spawned g)) + mset (pairs s')
          = sum_list (map (todo w) (gos s)) + mset (pairs s)"
    by (simp add: A_def B_def S_def)
  then show "pending w (s'\<lparr>gos := (gos s')[i := g']\<rparr>) = pending w s"
    using go_step_frame(1) [OF assms(3)] upd
    by (simp add: pending_def goroutines_def main_goroutine_def add.assoc)
qed (use assms(4) go_step_frame [OF assms(3)] go_step_todo(3) [OF assms(3)] in auto)


lemma go_step_before_wait:
  assumes "protocol w s" and "g \<in> set (goroutines s)" and "go_step w g s = Some x"
  shows "\<not> after_wait (main s)"
proof
  assume "after_wait (main s)"
  with assms(1) have "outstanding s = 0" by (simp add: protocol_def)
  from outstanding_zero [OF this] assms(2) obtain r where "g = Returned r" by auto
  with assms(3) show False by simp
qed

lemma accounting_main_step:
  assumes "protocol w s" and "accounting w dir n s"
  shows "accounting w dir n (main_step w s)"
proof (cases "main s")
  case (MainAdd dir' n')
  have "pending w (main_step w s) = pending w s"
    using MainAdd by (simp add: main_step_def pending_def goroutines_def main_goroutine_def)
  with assms(2) MainAdd show ?thesis
    by (intro accounting_unchanged [OF assms(2)]) (simp_all add: main_step_def)
next
  case (MainWalk g)
  show ?thesis
  proof (cases "go_step w g s")
    case None
    have "pending w (main_step w s) = pending w s"
      using MainWalk None
      by (cases g) (auto simp: main_step_def pending_def goroutines_def main_goroutine_def
            split: option.splits)
    with MainWalk None show ?thesis
      by (intro accounting_unchanged [OF assms(2)])
         (cases g; auto simp: main_step_def split: option.splits)+
  next
    case (Some a)
    then obtain g' s' where "go_step w g s = Some (g', s')" by (cases a) auto
    with accounting_go_step_main [OF assms(2) MainWalk this] MainWalk show ?thesis
      by (cases g) (auto simp: main_step_def)
  qed
next
  case MainWait
  have "pending w (main_step w s) = pending w s"
    using MainWait by (simp add: main_step_def pending_def goroutines_def main_goroutine_def)
  with MainWait show ?thesis
    by (intro accounting_unchanged [OF assms(2)]) (simp_all add: main_step_def)
next
  case MainClose
  then have "\<not> pairs_closed s"
    using assms(1) by (auto simp: protocol_def)
  then obtain h where c: "collector s = Collecting h"
    using assms(2) by (cases "collector s") (auto simp: accounting_def)
  have "pending w (main_step w s) = pending w s"
    using MainClose by (simp add: main_step_def pending_def goroutines_def main_goroutine_def)
  moreover have "hashes_of (main_step w s) = hashes_of s"
    using MainClose c by (simp add: main_step_def hashes_of_def)
  ultimately show ?thesis
    using assms(2) c MainClose by (simp add: accounting_def main_step_def)
next
  case MainRecv
  with assms(2) show ?thesis by (simp add: main_step_def)
next
  case (MainReturn h)
  with assms(2) show ?thesis by (simp add: main_step_def)
qed

definition sound :: "world \<Rightarrow> string \<Rightarrow> node \<Rightarrow> state \<Rightarrow> bool" where
  "sound w dir n s \<longleftrightarrow> protocol w s \<and> accounting w dir n s"

lemma sound_step:
  assumes "sound w dir n s"
  shows "sound w dir n (step w s a)"
proof -
  from assms have p: "protocol w s" and a: "accounting w dir n s"
    by (simp_all add: sound_def)
  have "accounting w dir n (step w s a)"
  proof (cases a)
    case AMain
    with accounting_main_step [OF p a] a show ?thesis by (simp add: step_def)
  next
    case ACollector
    with accounting_collector_step [OF a] a show ?thesis by (simp add: step_def)
  next
    case (AGo i)
    show ?thesis
    proof (cases "exited s = None \<and> i < length (gos s) \<and> go_step w (gos s ! i) s \<noteq> None")
      case True
      then obtain g' s' where st: "go_step w (gos s ! i) s = Some (g', s')" by auto
      from True have "gos s ! i \<in> set (goroutines s)" by (simp add: goroutines_def)
      from go_step_before_wait [OF p this st] have "\<not> returned (main s)"
        by (cases "main s") auto
      from accounting_go_step_gos [OF a _ st this] True st AGo show ?thesis
        by (simp add: step_def)
    next
      case False
      with AGo a show ?thesis by (auto simp: step_def split: option.splits)
    qed
  qed
  with protocol_step [OF p] show ?thesis by (simp add: sound_def)
qed

lemma sound_searchTree: "sound w dir n (searchTree w dir n schedule)"
  unfolding searchTree_def
proof (induction schedule rule: rev_induct)
  case Nil
  then show ?case
    using protocol_init accounting_init by (simp add: sound_def searchTree_def)
next
  case (snoc a schedule)
  then show ?case by (simp add: sound_step)
qed

lemma sum_list_map_empty:
  "\<forall>x\<in>set xs. f x = {#} \<Longrightarrow> sum_list (map f xs) = {#}"
  by (induction xs) auto

lemma returned_hashes:
  assumes "main (searchTree w dir n schedule) = MainReturn h"
  shows "mset (files_of h k) = paths_with k (yield_walkDir w dir n)" and "h k \<noteq> Some []"
proof -
  define s where "s = searchTree w dir n schedule"
  have p: "protocol w s" and a: "accounting w dir n s"
    using sound_searchTree [of w dir n schedule] by (simp_all add: sound_def s_def)
  have m: "main s = MainReturn h" using assms by (simp add: s_def)
  then have "outstanding s = 0" using p by (simp add: protocol_def)
  from outstanding_zero [OF this] have "\<forall>g\<in>set (goroutines s). todo w g = {#}"
    by auto
  then have "sum_list (map (todo w) (goroutines s)) = {#}"
    by (rule sum_list_map_empty)
  moreover have c: "collector s = Collected" "pairs s = []"
    using a m by (cases "collector s"; simp add: accounting_def)+
  ultimately have "pending w s = {#}"
    using m by (simp add: pending_def)
  moreover have "hashes_of s = h"
    using c m by (simp add: hashes_of_def)
  ultimately show "mset (files_of h k) = paths_with k (yield_walkDir w dir n)" and "h k \<noteq> Some []"
    using a by (auto simp: accounting_def)
qed


text \<open>
  C5. Two runs of \<open>searchTree\<close> on the same tree with the same digest, ignore sets and
  capacity, under any two schedules, that both return, return maps with the same
  hashes, and for every hash the same files, each as often; only the order of the
  files of a hash may differ.
\<close>

theorem same_tree_same_index:
  assumes "main (searchTree w dir n schedule1) = MainReturn h1"
    and "main (searchTree w dir n schedule2) = MainReturn h2"
  shows "dom h1 = dom h2 \<and> (\<forall>k. mset (files_of h1 k) = mset (files_of h2 k))"
proof -
  have eq: "mset (files_of h1 k) = mset (files_of h2 k)" for k
    using returned_hashes(1) [OF assms(1)] returned_hashes(1) [OF assms(2)] by simp
  have "h1 k = None \<longleftrightarrow> h2 k = None" for k
  proof -
    have "h1 k = None \<longleftrightarrow> files_of h1 k = []"
      using returned_hashes(2) [OF assms(1), of k] by (auto simp: files_of_def split: option.splits)
    also have "\<dots> \<longleftrightarrow> files_of h2 k = []"
      using eq [of k] by (metis mset_zero_iff)
    also have "\<dots> \<longleftrightarrow> h2 k = None"
      using returned_hashes(2) [OF assms(2), of k] by (auto simp: files_of_def split: option.splits)
    finally show ?thesis .
  qed
  then have "dom h1 = dom h2"
    by (auto simp: dom_def)
  with eq show ?thesis by simp
qed

theorem same_tree_same_index_witness:
  "main (searchTree \<lparr>md5hex = (\<lambda>bs. bs), ignore = walk4a_ignores, nworkers = 1\<rparr> ''r''
      (Dir [(''a'', Reg 1 (Bytes ''x'')), (''b'', Reg 1 (Bytes ''x''))])
      [AMain, AMain, AMain, AMain, AMain, AMain, AMain, AMain, AMain,
       AGo 0, AGo 0, AGo 0, AGo 0, AGo 0, ACollector, AGo 1, AGo 1, AGo 1, AGo 1, AGo 1, ACollector,
       AMain, AMain, ACollector, ACollector])
     = MainReturn (add_pair (add_pair Map.empty (''x'', ''r/a'')) (''x'', ''r/b''))
   \<and> main (searchTree \<lparr>md5hex = (\<lambda>bs. bs), ignore = walk4a_ignores, nworkers = 1\<rparr> ''r''
      (Dir [(''a'', Reg 1 (Bytes ''x'')), (''b'', Reg 1 (Bytes ''x''))])
      [AMain, AMain, AMain, AMain, AMain, AMain, AMain, AMain, AMain,
       AGo 1, AGo 1, AGo 1, AGo 1, AGo 1, ACollector, AGo 0, AGo 0, AGo 0, AGo 0, AGo 0, ACollector,
       AMain, AMain, ACollector, ACollector])
     = MainReturn (add_pair (add_pair Map.empty (''x'', ''r/b'')) (''x'', ''r/a''))
   \<and> dom (add_pair (add_pair Map.empty (''x'', ''r/a'')) (''x'', ''r/b''))
       = dom (add_pair (add_pair Map.empty (''x'', ''r/b'')) (''x'', ''r/a''))
   \<and> (\<forall>k. mset (files_of (add_pair (add_pair Map.empty (''x'', ''r/a'')) (''x'', ''r/b'')) k)
          = mset (files_of (add_pair (add_pair Map.empty (''x'', ''r/b'')) (''x'', ''r/a'')) k))"
proof -
  have a: "main (searchTree \<lparr>md5hex = (\<lambda>bs. bs), ignore = walk4a_ignores, nworkers = 1\<rparr> ''r''
      (Dir [(''a'', Reg 1 (Bytes ''x'')), (''b'', Reg 1 (Bytes ''x''))])
      [AMain, AMain, AMain, AMain, AMain, AMain, AMain, AMain, AMain,
       AGo 0, AGo 0, AGo 0, AGo 0, AGo 0, ACollector, AGo 1, AGo 1, AGo 1, AGo 1, AGo 1, ACollector,
       AMain, AMain, ACollector, ACollector])
     = MainReturn (add_pair (add_pair Map.empty (''x'', ''r/a'')) (''x'', ''r/b''))"
    by (simp add: searchTree_def init_def step_def main_step_def collector_step_def Walk_def
          visit_def walk4a_ignores_def Join_def Ext_def Base_def wg_Done_def hashFile_def)
  have b: "main (searchTree \<lparr>md5hex = (\<lambda>bs. bs), ignore = walk4a_ignores, nworkers = 1\<rparr> ''r''
      (Dir [(''a'', Reg 1 (Bytes ''x'')), (''b'', Reg 1 (Bytes ''x''))])
      [AMain, AMain, AMain, AMain, AMain, AMain, AMain, AMain, AMain,
       AGo 1, AGo 1, AGo 1, AGo 1, AGo 1, ACollector, AGo 0, AGo 0, AGo 0, AGo 0, AGo 0, ACollector,
       AMain, AMain, ACollector, ACollector])
     = MainReturn (add_pair (add_pair Map.empty (''x'', ''r/b'')) (''x'', ''r/a''))"
    by (simp add: searchTree_def init_def step_def main_step_def collector_step_def Walk_def
          visit_def walk4a_ignores_def Join_def Ext_def Base_def wg_Done_def hashFile_def)
  from a b same_tree_same_index [OF a b] show ?thesis
    by simp
qed

end
